theory Spec2Isabelle
  imports Main "HOL-Library.Char_ord" "HOL-Library.List_Lexorder"
begin

section \<open>BookService: an in-memory catalog of books\<close>

text \<open>
  A shallow embedding of \<^verbatim>\<open>book_service.py\<close> (the class \<^verbatim>\<open>BookService\<close> of
  \<^verbatim>\<open>02_08_CodeProject\<close>, and the refactored \<^verbatim>\<open>list_books\<close> / \<^verbatim>\<open>_sort_books\<close> of
  \<^verbatim>\<open>02_11_CodeProject_refactor/endState\<close>).

  Python's \<^verbatim>\<open>str\<close> is modelled by \<open>string\<close>, read as a sequence of code points below
  256 (Latin-1); Python's unbounded \<^verbatim>\<open>int\<close> by \<open>int\<close>. Every \<^verbatim>\<open>raise\<close> is a value
  \<open>Inl e\<close>; a method that mutates \<^verbatim>\<open>self\<close> returns the service it leaves behind.
\<close>

subsection \<open>The Python built-ins the service calls\<close>

datatype error = ValueError string | KeyError string | IndexError string

text \<open>\<^verbatim>\<open>str.isspace\<close> on one code point below 256: TAB..CR, FS..US, space, NEL, NBSP.\<close>

definition isspace :: "char \<Rightarrow> bool" where
  "isspace c = (let n = (of_char c :: nat) in
     (9 \<le> n \<and> n \<le> 13) \<or> (28 \<le> n \<and> n \<le> 32) \<or> n = 133 \<or> n = 160)"

text \<open>\<^verbatim>\<open>s.strip()\<close>: leading and trailing whitespace removed.\<close>

definition strip :: "string \<Rightarrow> string" where
  "strip s = rev (dropWhile isspace (rev (dropWhile isspace s)))"

text \<open>\<^verbatim>\<open>s.lower()\<close>: A..Z and the Latin-1 capitals (all of 192..222 but the
  multiplication sign 215) move up by 32; every other code point below 256 stays.\<close>

definition lower_char :: "char \<Rightarrow> char" where
  "lower_char c = (let n = (of_char c :: nat) in
     if (65 \<le> n \<and> n \<le> 90) \<or> (192 \<le> n \<and> n \<le> 222 \<and> n \<noteq> 215)
     then char_of (n + 32) else c)"

definition lower :: "string \<Rightarrow> string" where
  "lower s = map lower_char s"

text \<open>\<^verbatim>\<open>a in b\<close> for two strings: \<open>a\<close> occurs in \<open>b\<close> as a contiguous substring.\<close>

fun str_contains :: "string \<Rightarrow> string \<Rightarrow> bool" where
  "str_contains a [] = (a = [])"
| "str_contains a (c # cs) = (take (length a) (c # cs) = a \<or> str_contains a cs)"

text \<open>\<^verbatim>\<open>str(n)\<close> for an integer: its decimal digits, with a minus sign when negative.
  (CPython refuses conversions of more than 4300 digits unless configured otherwise; the model
  has no such limit.)\<close>

definition digit_char :: "nat \<Rightarrow> char" where
  "digit_char d = char_of (48 + d)"

fun str_nat :: "nat \<Rightarrow> string" where
  "str_nat n = (if n < 10 then [digit_char n] else str_nat (n div 10) @ [digit_char (n mod 10)])"

definition py_str :: "int \<Rightarrow> string" where
  "py_str i = (if i < 0 then CHR ''-'' # str_nat (nat (- i)) else str_nat (nat i))"

text \<open>\<^verbatim>\<open>int(s)\<close> for a string (base 10): surrounding whitespace is dropped, one sign is
  allowed, then digits, where single underscores may separate two digits. Anything else raises
  \<^verbatim>\<open>ValueError\<close>, here \<open>None\<close>.\<close>

definition is_digit :: "char \<Rightarrow> bool" where
  "is_digit c = (48 \<le> (of_char c :: nat) \<and> (of_char c :: nat) \<le> 57)"

definition digit_val :: "char \<Rightarrow> nat" where
  "digit_val c = of_char c - 48"

fun parse_digits :: "string \<Rightarrow> nat \<Rightarrow> nat option" where
  "parse_digits [] acc = Some acc"
| "parse_digits (c # cs) acc =
     (if is_digit c then parse_digits cs (10 * acc + digit_val c)
      else if c = CHR ''_'' \<and> cs \<noteq> [] \<and> is_digit (hd cs) then parse_digits cs acc
      else None)"

definition py_int :: "string \<Rightarrow> int option" where
  "py_int s =
     (let t = strip s;
          neg = (t \<noteq> [] \<and> hd t = CHR ''-'');
          ds = (if t \<noteq> [] \<and> (hd t = CHR ''-'' \<or> hd t = CHR ''+'') then tl t else t)
      in if ds = [] then None
         else if is_digit (hd ds)
         then map_option (\<lambda>n. if neg then - int n else int n) (parse_digits ds 0)
         else None)"

text \<open>\<^verbatim>\<open>xs.pop(i)\<close> for \<open>0 \<le> i\<close>: the list without its element at \<open>i\<close>, or \<^verbatim>\<open>IndexError\<close>.\<close>

definition pop :: "'a list \<Rightarrow> nat \<Rightarrow> error + 'a list" where
  "pop xs i = (if i < length xs then Inr (take i xs @ drop (Suc i) xs)
               else Inl (IndexError ''pop index out of range''))"

text \<open>\<^verbatim>\<open>xs.sort(key=key, reverse=reverse)\<close>. CPython first calls \<open>key\<close> on every element, in
  order (the first call that raises ends the sort), then sorts the (key, element) pairs by
  their keys with a stable sort; with \<open>reverse\<close> it reverses the list, sorts it the same way
  and reverses the result, so equal keys keep their order in both directions. A stable sort is
  determined by its keys, so insertion sort stands for Timsort.\<close>

fun map_keys :: "('a \<Rightarrow> error + 'k) \<Rightarrow> 'a list \<Rightarrow> error + ('k \<times> 'a) list" where
  "map_keys key [] = Inr []"
| "map_keys key (x # xs) =
     (case key x of
        Inl e \<Rightarrow> Inl e
      | Inr k \<Rightarrow> (case map_keys key xs of Inl e \<Rightarrow> Inl e | Inr ps \<Rightarrow> Inr ((k, x) # ps)))"

definition list_sort :: "('a \<Rightarrow> error + 'k::linorder) \<Rightarrow> bool \<Rightarrow> 'a list \<Rightarrow> error + 'a list" where
  "list_sort key reverse xs =
     (case map_keys key xs of
        Inl e \<Rightarrow> Inl e
      | Inr ps \<Rightarrow> Inr (map snd (if reverse then rev (sort_key fst (rev ps)) else sort_key fst ps)))"

text \<open>The values a sort key takes: \<^verbatim>\<open>int(value)\<close> or \<^verbatim>\<open>value.lower()\<close>. One sort only ever
  compares keys of one kind; integers by value, strings by code point, lexicographically.\<close>

datatype py_value = PyInt int | PyStr string

fun py_le :: "py_value \<Rightarrow> py_value \<Rightarrow> bool" where
  "py_le (PyInt a) (PyInt b) = (a \<le> b)"
| "py_le (PyStr s) (PyStr t) = (s \<le> t)"
| "py_le (PyInt a) (PyStr t) = True"
| "py_le (PyStr s) (PyInt b) = False"

instantiation py_value :: linorder
begin

definition less_eq_py_value :: "py_value \<Rightarrow> py_value \<Rightarrow> bool" where
  "less_eq_py_value a b = py_le a b"

definition less_py_value :: "py_value \<Rightarrow> py_value \<Rightarrow> bool" where
  "less_py_value a b = (py_le a b \<and> \<not> py_le b a)"

instance
proof
  fix x y z :: py_value
  show "(x < y) = (x \<le> y \<and> \<not> y \<le> x)"
    by (simp add: less_py_value_def less_eq_py_value_def)
  show "x \<le> x"
    by (cases x) (simp_all add: less_eq_py_value_def)
  show "x \<le> y \<Longrightarrow> y \<le> z \<Longrightarrow> x \<le> z"
    by (cases x; cases y; cases z) (simp_all add: less_eq_py_value_def)
  show "x \<le> y \<Longrightarrow> y \<le> x \<Longrightarrow> x = y"
    by (cases x; cases y) (simp_all add: less_eq_py_value_def)
  show "x \<le> y \<or> y \<le> x"
    by (cases x; cases y) (auto simp add: less_eq_py_value_def)
qed

end

subsection \<open>The service\<close>

text \<open>A book is the dictionary \<^verbatim>\<open>{"id": ..., "title": ..., "author": ...}\<close>; the service
  holds the list \<^verbatim>\<open>self.books\<close> and the counter \<^verbatim>\<open>self._next_id\<close>.\<close>

record book =
  book_id :: string
  title :: string
  author :: string

record book_service =
  books :: "book list"
  next_id :: int

text \<open>\<^verbatim>\<open>BookService.__init__\<close>\<close>

definition init :: book_service where
  "init = \<lparr>books = [], next_id = 1\<rparr>"

text \<open>\<^verbatim>\<open>book[key]\<close>\<close>

definition getitem :: "book \<Rightarrow> string \<Rightarrow> error + string" where
  "getitem b key =
     (if key = ''id'' then Inr (book_id b)
      else if key = ''title'' then Inr (title b)
      else if key = ''author'' then Inr (author b)
      else Inl (KeyError key))"

text \<open>\<^verbatim>\<open>create_book\<close>: the result (the new book, or the error raised) and the service
  afterwards.\<close>

definition create_book :: "book_service \<Rightarrow> string \<Rightarrow> string \<Rightarrow> (error + book) \<times> book_service" where
  "create_book self title0 author0 =
     (let title1 = strip title0;
          author1 = strip author0
      in if title1 = [] \<or> author1 = []
         then (Inl (ValueError ''Title and author must be non-empty strings''), self)
         else (let b = \<lparr>book_id = py_str (next_id self), title = title1, author = author1\<rparr>
               in (Inr b, self\<lparr>books := books self @ [b], next_id := next_id self + 1\<rparr>)))"

text \<open>\<^verbatim>\<open>get_book\<close>: the first book with that id, scanning from the front.\<close>

fun get_book_loop :: "book list \<Rightarrow> string \<Rightarrow> book option" where
  "get_book_loop [] k = None"
| "get_book_loop (b # bs) k = (if book_id b = k then Some b else get_book_loop bs k)"

definition get_book :: "book_service \<Rightarrow> string \<Rightarrow> book option" where
  "get_book self k = get_book_loop (books self) k"

text \<open>The search filter of \<^verbatim>\<open>list_books\<close> (the same lines in both versions):
  \<^verbatim>\<open>if search:\<close> is false for \<^verbatim>\<open>None\<close> and for the empty string.\<close>

definition search_filter :: "string option \<Rightarrow> book list \<Rightarrow> book list" where
  "search_filter search result =
     (case search of
        None \<Rightarrow> result
      | Some s \<Rightarrow>
          if s = [] then result
          else (let search_lower = lower s
                in filter (\<lambda>b. str_contains search_lower (lower (title b)) \<or>
                                str_contains search_lower (lower (author b))) result))"

definition valid_fields :: "string set" where
  "valid_fields = {''id'', ''title'', ''author''}"

text \<open>The message of the \<^verbatim>\<open>ValueError\<close> for a bad sort field. Python prints the set
  \<^verbatim>\<open>valid_fields\<close> in an order that depends on the hash seed; the model fixes one.\<close>

definition invalid_sort_field :: "string \<Rightarrow> error" where
  "invalid_sort_field sort_by =
     ValueError (''Invalid sort field: '' @ sort_by @ ''. Must be one of '' @
                 ''{'id', 'title', 'author'}'')"

text \<open>The closure \<^verbatim>\<open>sort_key(book)\<close>, with \<^verbatim>\<open>sort_by\<close> as its first argument. The
  message of the \<^verbatim>\<open>ValueError\<close> of \<^verbatim>\<open>int\<close> carries the literal as it is, without the
  quoting of \<^verbatim>\<open>repr\<close>.\<close>

definition book_sort_key :: "string \<Rightarrow> book \<Rightarrow> error + py_value" where
  "book_sort_key sort_by b =
     (case getitem b sort_by of
        Inl e \<Rightarrow> Inl e
      | Inr v \<Rightarrow>
          if sort_by = ''id''
          then (case py_int v of
                  None \<Rightarrow> Inl (ValueError (''invalid literal for int() with base 10: '' @ v))
                | Some n \<Rightarrow> Inr (PyInt n))
          else Inr (PyStr (lower v)))"

text \<open>\<^verbatim>\<open>list_books\<close> of \<^verbatim>\<open>02_08_CodeProject\<close>: validation and sort inline.
  \<^verbatim>\<open>if sort_by:\<close> is false for \<^verbatim>\<open>None\<close> and for the empty string.\<close>

definition list_books :: "book_service \<Rightarrow> string option \<Rightarrow> string option \<Rightarrow> bool \<Rightarrow> error + book list" where
  "list_books self search sort_by ascending =
     (let result = search_filter search (books self)
      in case sort_by of
           None \<Rightarrow> Inr result
         | Some f \<Rightarrow>
             if f = [] then Inr result
             else if f \<notin> valid_fields then Inl (invalid_sort_field f)
             else list_sort (book_sort_key f) (\<not> ascending) result)"

text \<open>The refactored version: \<^verbatim>\<open>_sort_books\<close> validates, copies and sorts;
  \<^verbatim>\<open>list_books\<close> calls it when \<^verbatim>\<open>sort_by\<close> is truthy.\<close>

definition sort_books :: "book list \<Rightarrow> string \<Rightarrow> bool \<Rightarrow> error + book list" where
  "sort_books bs sort_by ascending =
     (if sort_by \<notin> valid_fields then Inl (invalid_sort_field sort_by)
      else (let sorted_books = bs
            in list_sort (book_sort_key sort_by) (\<not> ascending) sorted_books))"

definition list_books_refactored :: "book_service \<Rightarrow> string option \<Rightarrow> string option \<Rightarrow> bool \<Rightarrow> error + book list" where
  "list_books_refactored self search sort_by ascending =
     (let result = search_filter search (books self)
      in case sort_by of
           None \<Rightarrow> Inr result
         | Some f \<Rightarrow> if f = [] then Inr result else sort_books result f ascending)"

text \<open>\<^verbatim>\<open>delete_book\<close>: the loop over \<^verbatim>\<open>enumerate(self.books)\<close> from index \<open>i\<close> on; at
  the first match the book is popped and the method returns.\<close>

function delete_book_loop :: "nat \<Rightarrow> book list \<Rightarrow> string \<Rightarrow> (error + bool) \<times> book list" where
  "delete_book_loop i bs k =
     (if i < length bs
      then (if book_id (bs ! i) = k
            then (case pop bs i of Inl e \<Rightarrow> (Inl e, bs) | Inr bs' \<Rightarrow> (Inr True, bs'))
            else delete_book_loop (Suc i) bs k)
      else (Inr False, bs))"
  by pat_completeness auto
termination
  by (relation "measure (\<lambda>(i, bs, k). length bs - i)") auto

definition delete_book :: "book_service \<Rightarrow> string \<Rightarrow> (error + bool) \<times> book_service" where
  "delete_book self k =
     (case delete_book_loop 0 (books self) k of (r, bs) \<Rightarrow> (r, self\<lparr>books := bs\<rparr>))"

subsection \<open>Sequences of calls\<close>

datatype call =
  Create string string
| Get string
| List "string option" "string option" bool
| Delete string

text \<open>The service after one call (a call that raises leaves what it had done so far), the
  id a call hands out, and the id a call removes.\<close>

fun step :: "book_service \<Rightarrow> call \<Rightarrow> book_service" where
  "step s (Create t a) = snd (create_book s t a)"
| "step s (Get k) = s"
| "step s (List search sort_by ascending) = s"
| "step s (Delete k) = snd (delete_book s k)"

fun issued_by :: "book_service \<Rightarrow> call \<Rightarrow> string list" where
  "issued_by s (Create t a) = (case fst (create_book s t a) of Inr b \<Rightarrow> [book_id b] | Inl e \<Rightarrow> [])"
| "issued_by s c = []"

fun removed_by :: "book_service \<Rightarrow> call \<Rightarrow> string list" where
  "removed_by s (Delete k) = (if fst (delete_book s k) = Inr True then [k] else [])"
| "removed_by s c = []"

fun run :: "book_service \<Rightarrow> call list \<Rightarrow> book_service" where
  "run s [] = s"
| "run s (c # cs) = run (step s c) cs"

fun issued :: "book_service \<Rightarrow> call list \<Rightarrow> string list" where
  "issued s [] = []"
| "issued s (c # cs) = issued_by s c @ issued (step s c) cs"

fun removed :: "book_service \<Rightarrow> call list \<Rightarrow> string list" where
  "removed s [] = []"
| "removed s (c # cs) = removed_by s c @ removed (step s c) cs"

declare str_nat.simps [simp del]

declare delete_book_loop.simps [simp del]

section \<open>Facts about the built-ins\<close>

lemma dropWhile_all_iff: "(\<forall>c\<in>set (dropWhile P s). P c) \<longleftrightarrow> (\<forall>c\<in>set s. P c)"
proof
  assume a: "\<forall>c\<in>set (dropWhile P s). P c"
  have "dropWhile P s = []"
  proof (cases "dropWhile P s")
    case Nil
    then show ?thesis .
  next
    case (Cons x xs)
    then have "\<not> P x" using hd_dropWhile [of P s] by simp
    with Cons a show ?thesis by simp
  qed
  then show "\<forall>c\<in>set s. P c" by simp
next
  assume "\<forall>c\<in>set s. P c"
  then show "\<forall>c\<in>set (dropWhile P s). P c" by (meson set_dropWhileD)
qed

lemma strip_Nil_iff: "strip s = [] \<longleftrightarrow> (\<forall>c\<in>set s. isspace c)"
proof -
  have "strip s = [] \<longleftrightarrow> (\<forall>c\<in>set (dropWhile isspace s). isspace c)"
    by (simp add: strip_def)
  then show ?thesis by (simp only: dropWhile_all_iff)
qed

lemma strip_id:
  assumes "s \<noteq> []" "\<not> isspace (hd s)" "\<not> isspace (last s)"
  shows "strip s = s"
proof -
  from assms have a: "dropWhile isspace s = s" by (cases s) simp_all
  from assms have b: "dropWhile isspace (rev s) = rev s" by (cases "rev s") (simp_all add: hd_rev)
  show ?thesis by (simp add: strip_def a b)
qed

lemma str_contains_iff: "str_contains a b \<longleftrightarrow> (\<exists>p q. b = p @ a @ q)"
proof (induction b)
  case Nil
  then show ?case by auto
next
  case (Cons c cs)
  have "take (length a) (c # cs) = a \<longleftrightarrow> (\<exists>q. c # cs = a @ q)"
    by (metis append_eq_conv_conj)
  moreover have "(\<exists>p q. c # cs = p @ a @ q) \<longleftrightarrow> (\<exists>q. c # cs = a @ q) \<or> (\<exists>p q. cs = p @ a @ q)"
  proof
    assume "\<exists>p q. c # cs = p @ a @ q"
    then obtain p q where pq: "c # cs = p @ a @ q" by blast
    show "(\<exists>q. c # cs = a @ q) \<or> (\<exists>p q. cs = p @ a @ q)"
    proof (cases p)
      case Nil
      with pq show ?thesis by auto
    next
      case (Cons x xs)
      with pq have "cs = xs @ a @ q" by simp
      then show ?thesis by blast
    qed
  next
    assume "(\<exists>q. c # cs = a @ q) \<or> (\<exists>p q. cs = p @ a @ q)"
    then show "\<exists>p q. c # cs = p @ a @ q"
    proof
      assume "\<exists>q. c # cs = a @ q"
      then obtain q where "c # cs = [] @ a @ q" by auto
      then show ?thesis by blast
    next
      assume "\<exists>p q. cs = p @ a @ q"
      then obtain p q where "cs = p @ a @ q" by blast
      then have "c # cs = (c # p) @ a @ q" by simp
      then show ?thesis by blast
    qed
  qed
  ultimately show ?case using Cons.IH by simp
qed

lemma of_char_digit_char: "d < 10 \<Longrightarrow> (of_char (digit_char d) :: nat) = 48 + d"
  by (simp add: digit_char_def)

lemma is_digit_digit_char: "d < 10 \<Longrightarrow> is_digit (digit_char d)"
  by (simp add: is_digit_def of_char_digit_char)

lemma digit_val_digit_char: "d < 10 \<Longrightarrow> digit_val (digit_char d) = d"
  by (simp add: digit_val_def of_char_digit_char)

lemma parse_digits_str_nat: "parse_digits (str_nat n @ ys) 0 = parse_digits ys n"
proof (induction n arbitrary: ys rule: str_nat.induct)
  case (1 n)
  show ?case
  proof (cases "n < 10")
    case True
    then show ?thesis
      by (subst str_nat.simps) (simp add: is_digit_digit_char digit_val_digit_char)
  next
    case False
    have "parse_digits (str_nat n @ ys) 0 = parse_digits (str_nat (n div 10) @ (digit_char (n mod 10) # ys)) 0"
      using False by (subst str_nat.simps) simp
    also have "\<dots> = parse_digits (digit_char (n mod 10) # ys) (n div 10)"
      using False by (simp add: "1.IH")
    also have "\<dots> = parse_digits ys n"
      by (simp add: is_digit_digit_char digit_val_digit_char)
    finally show ?thesis .
  qed
qed

lemma str_nat_hd: "str_nat n \<noteq> [] \<and> is_digit (hd (str_nat n)) \<and> is_digit (last (str_nat n))"
proof (induction n rule: str_nat.induct)
  case (1 n)
  show ?case
  proof (cases "n < 10")
    case True
    then show ?thesis by (subst (1 2 3) str_nat.simps) (simp add: is_digit_digit_char)
  next
    case False
    with "1.IH" show ?thesis
      by (subst (1 2 3) str_nat.simps) (simp add: is_digit_digit_char)
  qed
qed

lemma is_digit_not_space: "is_digit c \<Longrightarrow> \<not> isspace c"
  by (auto simp add: is_digit_def isspace_def Let_def)

lemma is_digit_not_sign: "is_digit c \<Longrightarrow> c \<noteq> CHR ''-'' \<and> c \<noteq> CHR ''+''"
  by (auto simp add: is_digit_def)

lemma minus_not_space: "\<not> isspace (CHR ''-'')"
  by (simp add: isspace_def)

lemma py_int_str_nat: "py_int (str_nat n) = Some (int n)"
proof -
  have s: "strip (str_nat n) = str_nat n"
    using str_nat_hd [of n] by (intro strip_id) (simp_all add: is_digit_not_space)
  have p: "parse_digits (str_nat n) 0 = Some n"
    using parse_digits_str_nat [of n "[]"] by simp
  show ?thesis
    using str_nat_hd [of n] is_digit_not_sign [of "hd (str_nat n)"]
    by (simp add: py_int_def s p Let_def)
qed

lemma py_int_py_str: "py_int (py_str i) = Some i"
proof (cases "i < 0")
  case False
  then show ?thesis by (simp add: py_str_def py_int_str_nat)
next
  case True
  let ?n = "nat (- i)"
  have s: "strip (CHR ''-'' # str_nat ?n) = CHR ''-'' # str_nat ?n"
    using str_nat_hd [of ?n] minus_not_space by (intro strip_id) (simp_all add: is_digit_not_space)
  have p: "parse_digits (str_nat ?n) 0 = Some ?n"
    using parse_digits_str_nat [of ?n "[]"] by simp
  show ?thesis
    using True str_nat_hd [of ?n]
    by (simp add: py_str_def py_int_def s p Let_def)
qed

subsection \<open>Sorting\<close>

lemma map_keys_Inr:
  "map_keys key xs = Inr ps \<Longrightarrow> map snd ps = xs \<and> map (\<lambda>p. Inr (fst p)) ps = map key xs"
proof (induction xs arbitrary: ps)
  case Nil
  then show ?case by simp
next
  case (Cons x xs)
  then show ?case by (auto split: sum.splits)
qed

lemma map_keys_total:
  "(\<forall>x\<in>set xs. \<exists>k. key x = Inr k) \<Longrightarrow> \<exists>ps. map_keys key xs = Inr ps"
  by (induction xs) (auto split: sum.splits)

lemma sort_key_rev_distinct:
  fixes f :: "'a \<Rightarrow> 'k::linorder"
  assumes "distinct (map f xs)"
  shows "sort_key f (rev xs) = sort_key f xs"
proof (rule map_sorted_distinct_set_unique [where f = f])
  from assms have inj: "inj_on f (set xs)" and d: "distinct xs"
    by (simp_all add: distinct_map)
  show "inj_on f (set (sort_key f (rev xs)) \<union> set (sort_key f xs))"
    using inj by simp
  show "sorted (map f (sort_key f (rev xs)))" "sorted (map f (sort_key f xs))"
    by simp_all
  show "distinct (map f (sort_key f (rev xs)))" "distinct (map f (sort_key f xs))"
    using inj d by (simp_all add: distinct_map)
  show "set (sort_key f (rev xs)) = set (sort_key f xs)"
    by simp
qed

lemma list_sort_stable:
  fixes key :: "'a \<Rightarrow> error + 'k::linorder"
  assumes "list_sort key reverse xs = Inr r"
  shows "filter (\<lambda>x. key x = v) r = filter (\<lambda>x. key x = v) xs"
proof -
  from assms obtain ps where ps: "map_keys key xs = Inr ps"
    and r: "r = map snd (if reverse then rev (sort_key fst (rev ps)) else sort_key fst ps)"
    by (auto simp add: list_sort_def split: sum.splits)
  from map_keys_Inr [OF ps] have xs: "map snd ps = xs"
    and keys: "map (\<lambda>p. Inr (fst p)) ps = map key xs" by simp_all
  have kp: "key (snd p) = Inr (fst p)" if "p \<in> set ps" for p
  proof -
    from that obtain i where i: "i < length ps" "ps ! i = p" by (auto simp add: in_set_conv_nth)
    from keys i have "map (\<lambda>p. Inr (fst p)) ps ! i = map key (map snd ps) ! i" by (simp add: xs)
    with i show ?thesis by simp
  qed
  let ?S = "if reverse then rev (sort_key fst (rev ps)) else sort_key fst ps"
  have setS: "set ?S = set ps" by simp
  show ?thesis
  proof (cases v)
    case (Inl e)
    have "filter (\<lambda>x. key x = v) (map snd ?S) = []"
      using kp setS Inl by (auto simp add: filter_empty_conv simp del: set_rev)
    moreover have "filter (\<lambda>x. key x = v) (map snd ps) = []"
      using kp Inl by (auto simp add: filter_empty_conv)
    ultimately show ?thesis by (simp add: r xs)
  next
    case (Inr k)
    have a: "filter (\<lambda>x. key x = v) (map snd qs) = map snd (filter (\<lambda>p. fst p = k) qs)"
      if "set qs \<subseteq> set ps" for qs
      using that kp Inr by (induction qs) auto
    have st: "filter (\<lambda>p. fst p = k) ?S = filter (\<lambda>p. fst p = k) ps"
    proof (cases reverse)
      case True
      have "filter (\<lambda>p. fst p = k) (rev (sort_key fst (rev ps)))
            = rev (filter (\<lambda>p. fst p = k) (sort_key fst (rev ps)))"
        by (simp add: rev_filter)
      also have "\<dots> = rev (filter (\<lambda>p. fst p = k) (rev ps))"
        by (simp only: sort_key_stable)
      also have "\<dots> = filter (\<lambda>p. fst p = k) ps"
        by (simp add: rev_filter)
      finally show ?thesis using True by simp
    next
      case False
      then show ?thesis by (simp add: sort_key_stable)
    qed
    have "filter (\<lambda>x. key x = v) r = map snd (filter (\<lambda>p. fst p = k) ?S)"
      unfolding r by (rule a) (simp only: setS subset_refl)
    also have "\<dots> = map snd (filter (\<lambda>p. fst p = k) ps)"
      by (simp only: st)
    also have "\<dots> = filter (\<lambda>x. key x = v) (map snd ps)"
      by (rule a [symmetric]) simp
    finally show ?thesis by (simp add: xs)
  qed
qed

lemma list_sort_reverse_distinct:
  fixes key :: "'a \<Rightarrow> error + 'k::linorder"
  assumes "distinct (map key xs)"
  shows "list_sort key True xs = map_sum id rev (list_sort key False xs)"
proof (cases "map_keys key xs")
  case (Inl e)
  then show ?thesis by (simp add: list_sort_def)
next
  case (Inr ps)
  from map_keys_Inr [OF Inr] have keys: "map (\<lambda>p. Inr (fst p)) ps = map key xs" by simp
  have "distinct (map (\<lambda>p. (Inr (fst p) :: error + 'k)) ps)"
    using assms by (simp only: keys)
  then have "distinct (map (Inr \<circ> fst) ps :: (error + 'k) list)" by (simp add: comp_def)
  then have "distinct (map fst ps)"
    by (simp only: map_map [symmetric] distinct_map) 
  then have "sort_key fst (rev ps) = sort_key fst ps" by (rule sort_key_rev_distinct)
  then show ?thesis using Inr by (simp add: list_sort_def rev_map)
qed

section \<open>Facts about the service\<close>

lemma create_book_Inl:
  "strip t = [] \<or> strip a = [] \<Longrightarrow>
   create_book s t a = (Inl (ValueError ''Title and author must be non-empty strings''), s)"
  by (auto simp add: create_book_def Let_def)

lemma create_book_Inr:
  "strip t \<noteq> [] \<Longrightarrow> strip a \<noteq> [] \<Longrightarrow>
   create_book s t a =
     (Inr \<lparr>book_id = py_str (next_id s), title = strip t, author = strip a\<rparr>,
      s\<lparr>books := books s @ [\<lparr>book_id = py_str (next_id s), title = strip t, author = strip a\<rparr>],
        next_id := next_id s + 1\<rparr>)"
  by (simp add: create_book_def Let_def)


lemma delete_book_loop_absent:
  "\<forall>j. i \<le> j \<and> j < length bs \<longrightarrow> book_id (bs ! j) \<noteq> k \<Longrightarrow>
   delete_book_loop i bs k = (Inr False, bs)"
proof (induction i bs k rule: delete_book_loop.induct)
  case (1 i bs k)
  show ?case
  proof (cases "i < length bs")
    case True
    with "1.prems" have ne: "book_id (bs ! i) \<noteq> k" by simp
    have "delete_book_loop (Suc i) bs k = (Inr False, bs)"
      using True ne "1.prems" by (intro "1.IH") auto
    with True ne show ?thesis by (subst delete_book_loop.simps) simp
  next
    case False
    then show ?thesis by (subst delete_book_loop.simps) simp
  qed
qed

lemma delete_book_loop_present:
  "i \<le> n \<Longrightarrow> n < length bs \<Longrightarrow> book_id (bs ! n) = k \<Longrightarrow>
   \<forall>j. i \<le> j \<and> j < n \<longrightarrow> book_id (bs ! j) \<noteq> k \<Longrightarrow>
   delete_book_loop i bs k = (Inr True, take n bs @ drop (Suc n) bs)"
proof (induction i bs k rule: delete_book_loop.induct)
  case (1 i bs k)
  show ?case
  proof (cases "i = n")
    case True
    with "1.prems" show ?thesis by (subst delete_book_loop.simps) (simp add: pop_def)
  next
    case False
    with "1.prems" have lt: "i < n" and ne: "book_id (bs ! i) \<noteq> k" by simp_all
    have "delete_book_loop (Suc i) bs k = (Inr True, take n bs @ drop (Suc n) bs)"
      using lt ne "1.prems" by (intro "1.IH") auto
    with lt ne "1.prems" show ?thesis by (subst delete_book_loop.simps) simp
  qed
qed

lemma first_index:
  assumes "k \<in> set (map book_id bs)"
  shows "\<exists>n. n < length bs \<and> book_id (bs ! n) = k \<and> (\<forall>j. j < n \<longrightarrow> book_id (bs ! j) \<noteq> k)"
proof -
  from assms have "\<exists>b\<in>set bs. book_id b = k" by auto
  from split_list_first_prop [OF this]
  obtain pre b post where sp: "bs = pre @ b # post" "book_id b = k"
    and pre: "\<forall>y\<in>set pre. book_id y \<noteq> k"
    by blast
  have "length pre < length bs" using sp by simp
  moreover have "book_id (bs ! length pre) = k" using sp by simp
  moreover have "book_id (bs ! j) \<noteq> k" if "j < length pre" for j
    using that sp pre by (simp add: nth_append)
  ultimately show ?thesis by blast
qed

lemma delete_book_absent:
  "k \<notin> set (map book_id (books s)) \<Longrightarrow> delete_book s k = (Inr False, s)"
proof -
  assume a: "k \<notin> set (map book_id (books s))"
  have "delete_book_loop 0 (books s) k = (Inr False, books s)"
    using a by (intro delete_book_loop_absent) auto
  then show ?thesis by (simp add: delete_book_def)
qed

lemma delete_book_present:
  assumes "k \<in> set (map book_id (books s))"
  shows "\<exists>pre b post. books s = pre @ b # post \<and> book_id b = k \<and> k \<notin> set (map book_id pre) \<and>
           delete_book s k = (Inr True, s\<lparr>books := pre @ post\<rparr>)"
proof -
  from first_index [OF assms] obtain n where n: "n < length (books s)" "book_id (books s ! n) = k"
    and least: "\<forall>j. j < n \<longrightarrow> book_id (books s ! j) \<noteq> k" by blast
  let ?pre = "take n (books s)" and ?post = "drop (Suc n) (books s)"
  have split: "books s = ?pre @ (books s ! n) # ?post"
    using n by (simp add: id_take_nth_drop)
  have "book_id y \<noteq> k" if "y \<in> set ?pre" for y
  proof -
    from that obtain i where i: "i < length ?pre" "?pre ! i = y"
      by (auto simp add: in_set_conv_nth)
    then have "i < n" "y = books s ! i" by simp_all
    with least show ?thesis by simp
  qed
  then have "k \<notin> set (map book_id ?pre)" by auto
  moreover have "delete_book_loop 0 (books s) k = (Inr True, ?pre @ ?post)"
    using n least by (intro delete_book_loop_present) auto
  then have "delete_book s k = (Inr True, s\<lparr>books := ?pre @ ?post\<rparr>)"
    by (simp add: delete_book_def)
  ultimately show ?thesis using split n by blast
qed

subsection \<open>What every sequence of calls preserves\<close>

lemma step_next_id_mono: "next_id s \<le> next_id (step s c)"
proof (cases c)
  case (Create t a)
  then show ?thesis by (simp add: create_book_def Let_def)
next
  case (Delete k)
  then show ?thesis by (simp add: delete_book_def split: prod.splits)
qed simp_all

lemma run_next_id_mono: "next_id s \<le> next_id (run s cs)"
proof (induction cs arbitrary: s)
  case Nil
  then show ?case by simp
next
  case (Cons c cs)
  have "next_id s \<le> next_id (step s c)" by (rule step_next_id_mono)
  also have "\<dots> \<le> next_id (run (step s c) cs)" by (rule Cons.IH)
  finally show ?case by simp
qed

lemma delete_book_True_present:
  "fst (delete_book s k) = Inr True \<Longrightarrow> k \<in> set (map book_id (books s))"
  using delete_book_absent [of k s] by (cases "k \<in> set (map book_id (books s))") simp_all

lemma delete_book_books:
  "next_id (snd (delete_book s k)) = next_id s \<and>
   (\<exists>pre post rest. books s = pre @ rest @ post \<and> books (snd (delete_book s k)) = pre @ post)"
proof (cases "k \<in> set (map book_id (books s))")
  case True
  from delete_book_present [OF True] obtain pre b post where
    "books s = pre @ b # post" "delete_book s k = (Inr True, s\<lparr>books := pre @ post\<rparr>)" by blast
  then have "books s = pre @ [b] @ post" "books (snd (delete_book s k)) = pre @ post"
    "next_id (snd (delete_book s k)) = next_id s" by simp_all
  then show ?thesis by blast
next
  case False
  then have "delete_book s k = (Inr False, s)" by (rule delete_book_absent)
  then have "books s = books s @ [] @ []" "books (snd (delete_book s k)) = books s @ []"
    "next_id (snd (delete_book s k)) = next_id s" by simp_all
  then show ?thesis by blast
qed

lemma step_inv:
  assumes d: "distinct (map book_id (books s))"
    and b: "\<forall>b\<in>set (books s). \<exists>m. py_int (book_id b) = Some m \<and> m < next_id s"
  shows "distinct (map book_id (books (step s c))) \<and>
         (\<forall>b\<in>set (books (step s c)). \<exists>m. py_int (book_id b) = Some m \<and> m < next_id (step s c))"
proof (cases c)
  case (Create t a)
  show ?thesis
  proof (cases "strip t = [] \<or> strip a = []")
    case True
    then show ?thesis using Create d b by (simp add: create_book_Inl)
  next
    case False
    let ?b = "\<lparr>book_id = py_str (next_id s), title = strip t, author = strip a\<rparr>"
    from False have st: "step s c = s\<lparr>books := books s @ [?b], next_id := next_id s + 1\<rparr>"
      using Create by (simp add: create_book_Inr)
    have fresh: "py_str (next_id s) \<notin> set (map book_id (books s))"
    proof
      assume "py_str (next_id s) \<in> set (map book_id (books s))"
      then obtain x where x: "x \<in> set (books s)" "book_id x = py_str (next_id s)" by auto
      with b obtain m where "py_int (book_id x) = Some m" "m < next_id s" by blast
      with x show False by (simp add: py_int_py_str)
    qed
    have "\<exists>m. py_int (book_id x) = Some m \<and> m < next_id s + 1"
      if "x \<in> set (books s @ [?b])" for x
    proof (cases "x \<in> set (books s)")
      case True
      with b obtain m where "py_int (book_id x) = Some m" "m < next_id s" by blast
      then show ?thesis by auto
    next
      case False
      with that have "x = ?b" by simp
      then show ?thesis by (simp add: py_int_py_str)
    qed
    then show ?thesis using d fresh by (simp add: st)
  qed
next
  case (Delete k)
  from delete_book_books [of s k] obtain pre post rest where
    n: "next_id (snd (delete_book s k)) = next_id s" and
    sp: "books s = pre @ rest @ post" "books (snd (delete_book s k)) = pre @ post" by blast
  have "distinct (map book_id (pre @ post))" using d sp by auto
  moreover have "\<forall>b\<in>set (pre @ post). \<exists>m. py_int (book_id b) = Some m \<and> m < next_id s"
    using b sp by auto
  ultimately show ?thesis using Delete n sp by simp
qed (use d b in simp_all)

lemma run_inv:
  assumes "distinct (map book_id (books s))"
    and "\<forall>b\<in>set (books s). \<exists>m. py_int (book_id b) = Some m \<and> m < next_id s"
  shows "distinct (map book_id (books (run s cs))) \<and>
         (\<forall>b\<in>set (books (run s cs)). \<exists>m. py_int (book_id b) = Some m \<and> m < next_id (run s cs))"
  using assms
proof (induction cs arbitrary: s)
  case Nil
  then show ?case by simp
next
  case (Cons c cs)
  from step_inv [OF Cons.prems, of c] show ?case by (simp add: Cons.IH)
qed

lemma issued_by_bounds:
  "\<forall>j\<in>set (issued_by s c). py_int j = Some (next_id s) \<and> next_id s < next_id (step s c)"
proof (cases c)
  case (Create t a)
  then show ?thesis
    by (cases "strip t = [] \<or> strip a = []") (simp_all add: create_book_Inl create_book_Inr py_int_py_str)
qed simp_all

lemma issued_bounds:
  "\<forall>j\<in>set (issued s cs). \<exists>m. py_int j = Some m \<and> next_id s \<le> m \<and> m < next_id (run s cs)"
proof (induction cs arbitrary: s)
  case Nil
  then show ?case by simp
next
  case (Cons c cs)
  show ?case
  proof
    fix j assume "j \<in> set (issued s (c # cs))"
    then consider "j \<in> set (issued_by s c)" | "j \<in> set (issued (step s c) cs)" by auto
    then show "\<exists>m. py_int j = Some m \<and> next_id s \<le> m \<and> m < next_id (run s (c # cs))"
    proof cases
      case 1
      with issued_by_bounds [of s c] have "py_int j = Some (next_id s)"
        "next_id s < next_id (step s c)" by auto
      moreover have "next_id (step s c) \<le> next_id (run (step s c) cs)" by (rule run_next_id_mono)
      ultimately show ?thesis by auto
    next
      case 2
      with Cons.IH [of "step s c"] obtain m where "py_int j = Some m"
        "next_id (step s c) \<le> m" "m < next_id (run (step s c) cs)" by blast
      moreover have "next_id s \<le> next_id (step s c)" by (rule step_next_id_mono)
      ultimately show ?thesis by auto
    qed
  qed
qed

lemma removed_bounds:
  assumes "distinct (map book_id (books s))"
    and "\<forall>b\<in>set (books s). \<exists>m. py_int (book_id b) = Some m \<and> m < next_id s"
  shows "\<forall>k\<in>set (removed s cs). \<exists>m. py_int k = Some m \<and> m < next_id (run s cs)"
  using assms
proof (induction cs arbitrary: s)
  case Nil
  then show ?case by simp
next
  case (Cons c cs)
  from step_inv [OF Cons.prems, of c]
  have inv': "distinct (map book_id (books (step s c)))"
    "\<forall>b\<in>set (books (step s c)). \<exists>m. py_int (book_id b) = Some m \<and> m < next_id (step s c)"
    by simp_all
  show ?case
  proof
    fix k assume "k \<in> set (removed s (c # cs))"
    then consider "k \<in> set (removed_by s c)" | "k \<in> set (removed (step s c) cs)" by auto
    then show "\<exists>m. py_int k = Some m \<and> m < next_id (run s (c # cs))"
    proof cases
      case 1
      then obtain k' where c: "c = Delete k'" by (cases c) simp_all
      with 1 have "fst (delete_book s k) = Inr True" by (simp split: if_splits)
      then have "k \<in> set (map book_id (books s))" by (rule delete_book_True_present)
      with Cons.prems(2) obtain m where "py_int k = Some m" "m < next_id s" by auto
      moreover have "next_id s \<le> next_id (run s (c # cs))" by (rule run_next_id_mono)
      ultimately show ?thesis by auto
    next
      case 2
      with Cons.IH [OF inv'] show ?thesis by simp
    qed
  qed
qed

lemma init_inv:
  "distinct (map book_id (books init)) \<and>
   (\<forall>b\<in>set (books init). \<exists>m. py_int (book_id b) = Some m \<and> m < next_id init)"
  by (simp add: init_def)

subsection \<open>The branches of \<open>list_books\<close> on its sort field\<close>

lemma valid_fields_nonempty: "f \<in> valid_fields \<Longrightarrow> f \<noteq> []"
  by (auto simp add: valid_fields_def)

lemma list_books_invalid_sort_field:
  "f \<noteq> [] \<Longrightarrow> f \<notin> valid_fields \<Longrightarrow> list_books s q (Some f) ascending = Inl (invalid_sort_field f)"
  by (simp add: list_books_def)

lemma list_books_valid_sort_field:
  "f \<in> valid_fields \<Longrightarrow>
   list_books s q (Some f) ascending
     = list_sort (book_sort_key f) (\<not> ascending) (search_filter q (books s))"
  by (simp add: list_books_def valid_fields_nonempty)

lemma set_search_filter: "set (search_filter q bs) \<subseteq> set bs"
  by (auto simp add: search_filter_def Let_def split: option.splits)

lemma book_sort_key_total:
  assumes "f \<in> valid_fields" and "\<exists>m. py_int (book_id b) = Some m"
  shows "\<exists>k. book_sort_key f b = Inr k"
  using assms by (auto simp add: book_sort_key_def getitem_def valid_fields_def)

lemma list_books_returns:
  assumes "f \<in> valid_fields"
  shows "\<exists>r. list_books (run init cs) q (Some f) ascending = Inr r"
proof -
  let ?xs = "search_filter q (books (run init cs))"
  have "\<exists>m. py_int (book_id b) = Some m" if "b \<in> set ?xs" for b
    using run_inv [of init cs] init_inv set_search_filter [of q "books (run init cs)"] that
    by blast
  then have "\<forall>b\<in>set ?xs. \<exists>k. book_sort_key f b = Inr k"
    using assms by (simp add: book_sort_key_total)
  then obtain ps where "map_keys (book_sort_key f) ?xs = Inr ps"
    using map_keys_total [of ?xs "book_sort_key f"] by blast
  then show ?thesis
    using assms by (simp add: list_books_valid_sort_field list_sort_def)
qed

lemma delete_book_cases:
  "(k \<in> set (map book_id (books s)) \<longrightarrow>
      (\<exists>pre b post. books s = pre @ b # post \<and> book_id b = k \<and> k \<notin> set (map book_id pre)
         \<and> delete_book s k = (Inr True, s\<lparr>books := pre @ post\<rparr>)))
   \<and> (k \<notin> set (map book_id (books s)) \<longrightarrow> delete_book s k = (Inr False, s))
   \<and> (\<exists>r. fst (delete_book s k) = Inr r)
   \<and> (distinct (map book_id (books s)) \<longrightarrow>
        delete_book (snd (delete_book s k)) k = (Inr False, snd (delete_book s k)))"
proof (cases "k \<in> set (map book_id (books s))")
  case True
  from delete_book_present [OF True] obtain pre b post where
    sp: "books s = pre @ b # post" "book_id b = k" "k \<notin> set (map book_id pre)"
    and del: "delete_book s k = (Inr True, s\<lparr>books := pre @ post\<rparr>)" by blast
  have again: "delete_book (snd (delete_book s k)) k = (Inr False, snd (delete_book s k))"
    if "distinct (map book_id (books s))"
  proof -
    from that sp have "k \<notin> set (map book_id (pre @ post))" by auto
    then have "k \<notin> set (map book_id (books (s\<lparr>books := pre @ post\<rparr>)))" by simp
    then have "delete_book (s\<lparr>books := pre @ post\<rparr>) k = (Inr False, s\<lparr>books := pre @ post\<rparr>)"
      by (rule delete_book_absent)
    then show ?thesis by (simp add: del)
  qed
  have "\<exists>r. fst (delete_book s k) = Inr r"
    by (rule exI [of _ True]) (simp add: del)
  with True sp del again show ?thesis by blast
next
  case False
  then have del: "delete_book s k = (Inr False, s)" by (rule delete_book_absent)
  then have "delete_book (snd (delete_book s k)) k = (Inr False, snd (delete_book s k))"
    by simp
  moreover have "\<exists>r. fst (delete_book s k) = Inr r"
    by (rule exI [of _ False]) (simp add: del)
  ultimately show ?thesis using False del by blast
qed

section \<open>Creating a book\<close>

text \<open>
  Claim C8. Whatever the service holds and whatever the two strings are, \<open>create_book\<close>
  raises if and only if the title or the author is empty once stripped, that is, is empty or
  holds whitespace only. The error is then the \<^verbatim>\<open>ValueError\<close> of the validation.
\<close>

theorem create_book_raises_iff:
  "((\<exists>e. fst (create_book s t a) = Inl e) = (strip t = [] \<or> strip a = []))
   \<and> (\<forall>e. fst (create_book s t a) = Inl e \<longrightarrow>
          e = ValueError ''Title and author must be non-empty strings'')
   \<and> ((strip t = []) = (\<forall>c\<in>set t. isspace c))
   \<and> ((strip a = []) = (\<forall>c\<in>set a. isspace c))"
proof -
  have "(\<exists>e. fst (create_book s t a) = Inl e) = (strip t = [] \<or> strip a = [])"
    by (auto simp add: create_book_def Let_def)
  moreover have "\<forall>e. fst (create_book s t a) = Inl e \<longrightarrow>
          e = ValueError ''Title and author must be non-empty strings''"
    by (auto simp add: create_book_def Let_def split: if_splits)
  ultimately show ?thesis by (simp only: strip_Nil_iff simp_thms)
qed

theorem create_book_raises_iff_witness:
  "(\<exists>e. fst (create_book init ''   '' ''Author'') = Inl e)
   \<and> (\<exists>e. fst (create_book init ''Title'' '''') = Inl e)
   \<and> \<not> (\<exists>e. fst (create_book init '' Title '' ''Author'') = Inl e)"
proof -
  have a: "strip ''   '' = []" "strip '''' = []" by code_simp+
  have b: "strip '' Title '' \<noteq> []" "strip ''Author'' \<noteq> []" by code_simp+
  show ?thesis
    using create_book_raises_iff [of init "''   ''" "''Author''"]
      create_book_raises_iff [of init "''Title''" "''''"]
      create_book_raises_iff [of init "'' Title ''" "''Author''"] a b
    by blast
qed


text \<open>
  Claim C10. When \<open>create_book\<close> raises, the service is what it was: the same books and the
  same counter, so the failed call has used up no id.
\<close>

theorem create_book_failure_unchanged:
  "fst (create_book s t a) = Inl e \<Longrightarrow>
   snd (create_book s t a) = s \<and> books (snd (create_book s t a)) = books s
   \<and> next_id (snd (create_book s t a)) = next_id s"
  by (auto simp add: create_book_def Let_def split: if_splits)

theorem create_book_failure_unchanged_witness:
  "fst (create_book (snd (create_book init ''Dune'' ''Frank Herbert'')) ''   '' ''Author'')
     = Inl (ValueError ''Title and author must be non-empty strings'')
   \<and> snd (create_book (snd (create_book init ''Dune'' ''Frank Herbert'')) ''   '' ''Author'')
     = \<lparr>books = [\<lparr>book_id = ''1'', title = ''Dune'', author = ''Frank Herbert''\<rparr>], next_id = 2\<rparr>"
proof -
  let ?s = "snd (create_book init ''Dune'' ''Frank Herbert'')"
  have s: "?s = \<lparr>books = [\<lparr>book_id = ''1'', title = ''Dune'', author = ''Frank Herbert''\<rparr>], next_id = 2\<rparr>"
    by code_simp
  have f: "fst (create_book ?s ''   '' ''Author'')
     = Inl (ValueError ''Title and author must be non-empty strings'')"
    by code_simp
  from create_book_failure_unchanged [OF f] f s show ?thesis by simp
qed

text \<open>
  Claim C4. With a title and an author that are not empty once stripped, \<open>create_book\<close>
  returns a book whose id is \<^verbatim>\<open>str\<close> of the counter and whose title and author are the
  stripped inputs, appends it at the end of the books and adds one to the counter. In a service
  reached from the empty one by any calls \<open>cs\<close>, the new id is none of the ids handed out
  before and none of the ids held, and as a number it is above every id handed out before.
\<close>

theorem create_book_valid:
  assumes "strip t \<noteq> []" and "strip a \<noteq> []"
  shows "\<exists>b s'. create_book s t a = (Inr b, s')
           \<and> book_id b = py_str (next_id s) \<and> title b = strip t \<and> author b = strip a
           \<and> books s' = books s @ [b] \<and> next_id s' = next_id s + 1
           \<and> (s = run init cs \<longrightarrow>
                book_id b \<notin> set (issued init cs)
                \<and> book_id b \<notin> set (map book_id (books s))
                \<and> (\<forall>j\<in>set (issued init cs).
                      \<exists>m n. py_int j = Some m \<and> py_int (book_id b) = Some n \<and> m < n))"
proof -
  let ?b = "\<lparr>book_id = py_str (next_id s), title = strip t, author = strip a\<rparr>"
  let ?s' = "s\<lparr>books := books s @ [?b], next_id := next_id s + 1\<rparr>"
  have c: "create_book s t a = (Inr ?b, ?s')"
    using assms by (rule create_book_Inr)
  have n: "py_int (book_id ?b) = Some (next_id s)" by (simp add: py_int_py_str)
  have r: "book_id ?b \<notin> set (issued init cs) \<and> book_id ?b \<notin> set (map book_id (books s))
           \<and> (\<forall>j\<in>set (issued init cs).
                      \<exists>m n. py_int j = Some m \<and> py_int (book_id ?b) = Some n \<and> m < n)"
    if s: "s = run init cs"
  proof -
    have older: "\<exists>m. py_int j = Some m \<and> m < next_id s" if "j \<in> set (issued init cs)" for j
      using issued_bounds [of init cs] that s by blast
    have held: "\<exists>m. py_int (book_id x) = Some m \<and> m < next_id s" if "x \<in> set (books s)" for x
      using run_inv [of init cs] init_inv that s by blast
    have "book_id ?b \<notin> set (issued init cs)"
      using older n by fastforce
    moreover have "book_id ?b \<notin> set (map book_id (books s))"
      using held n by fastforce
    moreover have "\<forall>j\<in>set (issued init cs).
        \<exists>m n. py_int j = Some m \<and> py_int (book_id ?b) = Some n \<and> m < n"
      using older n by blast
    ultimately show ?thesis by blast
  qed
  show ?thesis
    by (rule exI [of _ ?b], rule exI [of _ ?s']) (use c r in simp)
qed

theorem create_book_valid_witness:
  "fst (create_book (run init [Create ''Book 1'' ''Author 1'', Create ''Book 2'' ''Author 2'',
                              Delete ''2'']) ''  Book 3 '' ''Author 3'')
     = Inr \<lparr>book_id = ''3'', title = ''Book 3'', author = ''Author 3''\<rparr>
   \<and> ''3'' \<notin> set (issued init [Create ''Book 1'' ''Author 1'', Create ''Book 2'' ''Author 2'',
                              Delete ''2''])"
proof -
  let ?cs = "[Create ''Book 1'' ''Author 1'', Create ''Book 2'' ''Author 2'', Delete ''2'']"
  have v: "strip ''  Book 3 '' \<noteq> []" "strip ''Author 3'' \<noteq> []" by code_simp+
  have e: "strip ''  Book 3 '' = ''Book 3''" "strip ''Author 3'' = ''Author 3''"
    "py_str (next_id (run init ?cs)) = ''3''" by code_simp+
  from create_book_valid [OF v, of "run init ?cs" ?cs]
  obtain b s' where c: "create_book (run init ?cs) ''  Book 3 '' ''Author 3'' = (Inr b, s')"
    and f: "book_id b = py_str (next_id (run init ?cs))" "title b = strip ''  Book 3 ''"
      "author b = strip ''Author 3''"
    and fresh: "book_id b \<notin> set (issued init ?cs)"
    by blast
  from f have b: "b = \<lparr>book_id = ''3'', title = ''Book 3'', author = ''Author 3''\<rparr>"
    by (intro book.equality) (simp_all only: e book.simps unit_eq)
  from c have "fst (create_book (run init ?cs) ''  Book 3 '' ''Author 3'') = Inr b"
    by (simp only: fst_conv)
  moreover have "''3'' \<notin> set (issued init ?cs)"
    using fresh unfolding f e .
  ultimately show ?thesis by (simp only: b simp_thms)
qed

section \<open>Ids over the life of a service\<close>

text \<open>
  Claim C5. After any sequence \<open>cs\<close> of calls on the empty service (counter 1): the ids of
  the books held are pairwise distinct; every id handed out so far reads as a number below the
  counter; and an id that \<open>delete_book\<close> removed during \<open>cs\<close> is handed out by no call of any
  continuation \<open>cs'\<close>.
\<close>

theorem reachable_invariants:
  "distinct (map book_id (books (run init cs)))
   \<and> (\<forall>j\<in>set (issued init cs). \<exists>m. py_int j = Some m \<and> m < next_id (run init cs))
   \<and> (\<forall>k\<in>set (removed init cs). k \<notin> set (issued (run init cs) cs'))"
proof -
  have inv: "distinct (map book_id (books (run init cs)))"
    using run_inv [of init cs] init_inv by blast
  have iss: "\<forall>j\<in>set (issued init cs). \<exists>m. py_int j = Some m \<and> m < next_id (run init cs)"
    using issued_bounds [of init cs] by blast
  have "k \<notin> set (issued (run init cs) cs')" if "k \<in> set (removed init cs)" for k
  proof
    assume "k \<in> set (issued (run init cs) cs')"
    with issued_bounds [of "run init cs" cs'] obtain m where
      m: "py_int k = Some m" "next_id (run init cs) \<le> m" by blast
    from removed_bounds [of init cs] init_inv that obtain m' where
      "py_int k = Some m'" "m' < next_id (run init cs)" by blast
    with m show False by simp
  qed
  with inv iss show ?thesis by blast
qed

theorem reachable_invariants_witness:
  "distinct (map book_id (books (run init
      [Create ''Book 1'' ''Author 1'', Create ''Book 2'' ''Author 2'', Delete ''1''])))
   \<and> ''1'' \<in> set (removed init
      [Create ''Book 1'' ''Author 1'', Create ''Book 2'' ''Author 2'', Delete ''1''])
   \<and> ''1'' \<notin> set (issued (run init
      [Create ''Book 1'' ''Author 1'', Create ''Book 2'' ''Author 2'', Delete ''1''])
      [Create ''Book 3'' ''Author 3'', Create ''Book 4'' ''Author 4''])
   \<and> (\<exists>m. py_int ''2'' = Some m \<and> m < next_id (run init
      [Create ''Book 1'' ''Author 1'', Create ''Book 2'' ''Author 2'', Delete ''1'']))"
proof -
  let ?cs = "[Create ''Book 1'' ''Author 1'', Create ''Book 2'' ''Author 2'', Delete ''1'']"
  let ?cs' = "[Create ''Book 3'' ''Author 3'', Create ''Book 4'' ''Author 4'']"
  have r: "''1'' \<in> set (removed init ?cs)" by code_simp
  have i: "''2'' \<in> set (issued init ?cs)" by code_simp
  from reachable_invariants [of ?cs ?cs'] r i show ?thesis by blast
qed

section \<open>Deleting a book\<close>

text \<open>
  Claim C9. \<open>delete_book\<close> never raises. When a book with exactly that id is held it returns
  \<^verbatim>\<open>True\<close> and removes the first such book, leaving the others in order and the counter
  alone; when none is held it returns \<^verbatim>\<open>False\<close> and leaves the service as it was. With
  pairwise distinct ids, and so in every service reached from the empty one by any calls
  \<open>cs\<close>, a second call with the same id returns \<^verbatim>\<open>False\<close> and changes nothing.
\<close>

theorem delete_book_spec:
  "(k \<in> set (map book_id (books s)) \<longrightarrow>
      (\<exists>pre b post. books s = pre @ b # post \<and> book_id b = k \<and> k \<notin> set (map book_id pre)
         \<and> delete_book s k = (Inr True, s\<lparr>books := pre @ post\<rparr>)))
   \<and> (k \<notin> set (map book_id (books s)) \<longrightarrow> delete_book s k = (Inr False, s))
   \<and> (\<exists>r. fst (delete_book s k) = Inr r)
   \<and> (distinct (map book_id (books s)) \<longrightarrow>
        delete_book (snd (delete_book s k)) k = (Inr False, snd (delete_book s k)))
   \<and> delete_book (snd (delete_book (run init cs) k)) k
        = (Inr False, snd (delete_book (run init cs) k))"
proof -
  have "distinct (map book_id (books (run init cs)))"
    using run_inv [of init cs] init_inv by blast
  with delete_book_cases [of k "run init cs"]
  have "delete_book (snd (delete_book (run init cs) k)) k
        = (Inr False, snd (delete_book (run init cs) k))"
    by blast
  with delete_book_cases [of k s] show ?thesis by blast
qed

theorem delete_book_spec_witness:
  "fst (delete_book (run init [Create ''Book 1'' ''Author 1'', Create ''Book 2'' ''Author 2'']) ''1'')
     = Inr True
   \<and> books (snd (delete_book
        (run init [Create ''Book 1'' ''Author 1'', Create ''Book 2'' ''Author 2'']) ''1''))
     = [\<lparr>book_id = ''2'', title = ''Book 2'', author = ''Author 2''\<rparr>]
   \<and> delete_book (snd (delete_book
        (run init [Create ''Book 1'' ''Author 1'', Create ''Book 2'' ''Author 2'']) ''1'')) ''1''
     = (Inr False, snd (delete_book
        (run init [Create ''Book 1'' ''Author 1'', Create ''Book 2'' ''Author 2'']) ''1''))
   \<and> delete_book (run init [Create ''Book 1'' ''Author 1'', Create ''Book 2'' ''Author 2'']) ''999''
     = (Inr False, run init [Create ''Book 1'' ''Author 1'', Create ''Book 2'' ''Author 2''])"
proof -
  let ?s = "run init [Create ''Book 1'' ''Author 1'', Create ''Book 2'' ''Author 2'']"
  have d: "distinct (map book_id (books ?s))" by code_simp
  have a: "''999'' \<notin> set (map book_id (books ?s))" by code_simp
  have t: "fst (delete_book ?s ''1'') = Inr True" by code_simp
  have b: "books (snd (delete_book ?s ''1''))
     = [\<lparr>book_id = ''2'', title = ''Book 2'', author = ''Author 2''\<rparr>]" by code_simp
  from delete_book_spec [of "''1''" ?s] d
  have "delete_book (snd (delete_book ?s ''1'')) ''1'' = (Inr False, snd (delete_book ?s ''1''))"
    by blast
  moreover from delete_book_spec [of "''999''" ?s] a
  have "delete_book ?s ''999'' = (Inr False, ?s)" by blast
  ultimately show ?thesis using t b by blast
qed

section \<open>Listing books\<close>

text \<open>
  Claim C7. Without a sort (\<^verbatim>\<open>sort_by\<close> absent or empty), \<open>list_books\<close> returns all books
  when the search is absent or the empty string, and for any other search string, a
  whitespace-only one included, the books whose lowercased title or lowercased author has the
  lowercased search string as a contiguous substring, in the order the service holds them.
\<close>

theorem list_books_search:
  assumes "sort_by = None \<or> sort_by = Some ''''"
  shows "list_books s None sort_by ascending = Inr (books s)
   \<and> list_books s (Some '''') sort_by ascending = Inr (books s)
   \<and> (q \<noteq> [] \<longrightarrow> list_books s (Some q) sort_by ascending =
         Inr (filter (\<lambda>b. (\<exists>pre post. lower (title b) = pre @ lower q @ post) \<or>
                           (\<exists>pre post. lower (author b) = pre @ lower q @ post)) (books s)))"
  using assms by (auto simp add: list_books_def search_filter_def str_contains_iff Let_def)

theorem list_books_search_witness:
  "list_books (run init [Create ''Book A'' ''Author A'', Create ''Book B'' ''Author B''])
      (Some ''   '') None True = Inr []
   \<and> list_books (run init [Create ''Book A'' ''Author A'', Create ''Book B'' ''Author B''])
      (Some ''AUTHOR b'') None True
     = Inr [\<lparr>book_id = ''2'', title = ''Book B'', author = ''Author B''\<rparr>]
   \<and> list_books (run init [Create ''Book A'' ''Author A'', Create ''Book B'' ''Author B''])
      (Some '''') None True
     = Inr [\<lparr>book_id = ''1'', title = ''Book A'', author = ''Author A''\<rparr>,
            \<lparr>book_id = ''2'', title = ''Book B'', author = ''Author B''\<rparr>]"
proof -
  let ?s = "run init [Create ''Book A'' ''Author A'', Create ''Book B'' ''Author B'']"
  let ?hit = "\<lambda>q b. (\<exists>pre post. lower (title b) = pre @ lower q @ post) \<or>
                    (\<exists>pre post. lower (author b) = pre @ lower q @ post)"
  let ?in = "\<lambda>q b. str_contains (lower q) (lower (title b)) \<or>
                    str_contains (lower q) (lower (author b))"
  have n: "''   '' \<noteq> ''''" "''AUTHOR b'' \<noteq> ''''" by simp_all
  have bs: "books ?s = [\<lparr>book_id = ''1'', title = ''Book A'', author = ''Author A''\<rparr>,
            \<lparr>book_id = ''2'', title = ''Book B'', author = ''Author B''\<rparr>]" by code_simp
  have f1: "filter (?in ''   '') (books ?s) = []" by code_simp
  have f2: "filter (?in ''AUTHOR b'') (books ?s)
     = [\<lparr>book_id = ''2'', title = ''Book B'', author = ''Author B''\<rparr>]" by code_simp
  have h: "filter (?hit q) xs = filter (?in q) xs" for q xs
    by (simp only: str_contains_iff)
  from list_books_search [of None ?s True "''   ''"] n
  have "list_books ?s (Some ''   '') None True = Inr (filter (?hit ''   '') (books ?s))"
    by blast
  then have 1: "list_books ?s (Some ''   '') None True = Inr []"
    by (simp only: h f1)
  from list_books_search [of None ?s True "''AUTHOR b''"] n
  have "list_books ?s (Some ''AUTHOR b'') None True = Inr (filter (?hit ''AUTHOR b'') (books ?s))"
    by blast
  then have 2: "list_books ?s (Some ''AUTHOR b'') None True
     = Inr [\<lparr>book_id = ''2'', title = ''Book B'', author = ''Author B''\<rparr>]"
    by (simp only: h f2)
  from list_books_search [of None ?s True "''x''"]
  have "list_books ?s (Some '''') None True = Inr (books ?s)" by blast
  then have 3: "list_books ?s (Some '''') None True
     = Inr [\<lparr>book_id = ''1'', title = ''Book A'', author = ''Author A''\<rparr>,
            \<lparr>book_id = ''2'', title = ''Book B'', author = ''Author B''\<rparr>]"
    by (simp only: bs)
  from 1 2 3 show ?thesis by blast
qed

text \<open>
  Claim C1 asks for the validation error on every supplied sort field outside
  \<^verbatim>\<open>{"id", "title", "author"}\<close>, the empty string included. For a non-empty field that holds
  (\<open>list_books_invalid_sort_field\<close>). For the empty string the guard \<^verbatim>\<open>if sort_by:\<close> is
  false: whatever the service, the search and the direction, \<open>list_books\<close> raises nothing and
  returns the filtered books unsorted, although \<^verbatim>\<open>test_list_invalid_sort_field\<close> expects a
  \<^verbatim>\<open>ValueError\<close> for \<^verbatim>\<open>sort_by=""\<close>.
\<close>

theorem list_books_empty_sort_field:
  "list_books s q (Some '''') ascending = Inr (search_filter q (books s))"
  by (simp add: list_books_def)

theorem list_books_empty_sort_field_witness:
  "list_books (run init [Create ''Test Book'' ''Test Author'']) None (Some '''') True
     = Inr [\<lparr>book_id = ''1'', title = ''Test Book'', author = ''Test Author''\<rparr>]"
proof -
  have "search_filter None (books (run init [Create ''Test Book'' ''Test Author'']))
     = [\<lparr>book_id = ''1'', title = ''Test Book'', author = ''Test Author''\<rparr>]"
    by code_simp
  with list_books_empty_sort_field [of "run init [Create ''Test Book'' ''Test Author'']" None True]
  show ?thesis by (simp only:)
qed

text \<open>
  Claim C2 says that the descending list is the ascending list reversed. It is not when two of
  the listed books have equal keys: \<^verbatim>\<open>sort(reverse=True)\<close> keeps such books in their
  pre-sort order, reversing the ascending list would swap them. Two books with the title
  "Same Title" show it.
\<close>

theorem list_books_descending_counterexample:
  "list_books (run init [Create ''Same Title'' ''Author A'', Create ''Same Title'' ''Author B''])
      None (Some ''title'') False
   \<noteq> map_sum id rev
      (list_books (run init [Create ''Same Title'' ''Author A'', Create ''Same Title'' ''Author B''])
         None (Some ''title'') True)"
  by code_simp

text \<open>
  Claim C2, amended. For a valid sort field, when the books selected by the search have
  pairwise distinct sort keys, \<open>list_books\<close> with \<^verbatim>\<open>ascending=False\<close> returns the reverse of
  what it returns with \<^verbatim>\<open>ascending=True\<close> (and raises the same error when that call
  raises).
\<close>

theorem list_books_descending_reverse:
  assumes "sort_by \<in> valid_fields"
    and "distinct (map (book_sort_key sort_by) (search_filter q (books s)))"
  shows "list_books s q (Some sort_by) False
         = map_sum id rev (list_books s q (Some sort_by) True)"
  using assms by (simp add: list_books_valid_sort_field list_sort_reverse_distinct)

theorem list_books_descending_reverse_witness:
  "list_books (run init [Create ''C Book'' ''Author C'', Create ''A Book'' ''Author A'',
                         Create ''B Book'' ''Author B'']) None (Some ''title'') False
     = Inr [\<lparr>book_id = ''1'', title = ''C Book'', author = ''Author C''\<rparr>,
            \<lparr>book_id = ''3'', title = ''B Book'', author = ''Author B''\<rparr>,
            \<lparr>book_id = ''2'', title = ''A Book'', author = ''Author A''\<rparr>]"
proof -
  let ?s = "run init [Create ''C Book'' ''Author C'', Create ''A Book'' ''Author A'',
                      Create ''B Book'' ''Author B'']"
  have v: "''title'' \<in> valid_fields" by (simp add: valid_fields_def)
  have d: "distinct (map (book_sort_key ''title'') (search_filter None (books ?s)))"
    by code_simp
  have a: "list_books ?s None (Some ''title'') True
     = Inr [\<lparr>book_id = ''2'', title = ''A Book'', author = ''Author A''\<rparr>,
            \<lparr>book_id = ''3'', title = ''B Book'', author = ''Author B''\<rparr>,
            \<lparr>book_id = ''1'', title = ''C Book'', author = ''Author C''\<rparr>]"
    by code_simp
  from list_books_descending_reverse [OF v d] show ?thesis
    by (simp only: a) simp
qed

text \<open>
  Claim C3. For a valid sort field and either direction: in a service reached from the empty
  one \<open>list_books\<close> returns a list; and whenever it returns a list \<open>r\<close>, then for every key
  the books of \<open>r\<close> with that key are, in the same order, the books with that key of the
  filtered list before the sort. So two books with equal keys stand in \<open>r\<close> as they stood
  before the sort, with \<^verbatim>\<open>ascending=True\<close> and with \<^verbatim>\<open>ascending=False\<close> alike.
\<close>

theorem list_books_sort_stable:
  assumes "sort_by \<in> valid_fields"
  shows "(\<exists>r. list_books (run init cs) q (Some sort_by) ascending = Inr r)
   \<and> (\<forall>r key. list_books s q (Some sort_by) ascending = Inr r \<longrightarrow>
         filter (\<lambda>b. book_sort_key sort_by b = key) r
         = filter (\<lambda>b. book_sort_key sort_by b = key) (search_filter q (books s)))"
proof -
  have "filter (\<lambda>b. book_sort_key sort_by b = key) r
        = filter (\<lambda>b. book_sort_key sort_by b = key) (search_filter q (books s))"
    if "list_books s q (Some sort_by) ascending = Inr r" for r key
    using assms that by (simp add: list_books_valid_sort_field list_sort_stable)
  with list_books_returns [OF assms, of cs q ascending] show ?thesis by blast
qed

theorem list_books_sort_stable_witness:
  "list_books (run init [Create ''Same Title'' ''Author A'', Create ''Other'' ''Author C'',
                         Create ''same title'' ''Author B'']) None (Some ''title'') False
     = Inr [\<lparr>book_id = ''1'', title = ''Same Title'', author = ''Author A''\<rparr>,
            \<lparr>book_id = ''3'', title = ''same title'', author = ''Author B''\<rparr>,
            \<lparr>book_id = ''2'', title = ''Other'', author = ''Author C''\<rparr>]
   \<and> filter (\<lambda>b. book_sort_key ''title'' b = Inr (PyStr ''same title''))
        [\<lparr>book_id = ''1'', title = ''Same Title'', author = ''Author A''\<rparr>,
         \<lparr>book_id = ''3'', title = ''same title'', author = ''Author B''\<rparr>,
         \<lparr>book_id = ''2'', title = ''Other'', author = ''Author C''\<rparr>]
     = filter (\<lambda>b. book_sort_key ''title'' b = Inr (PyStr ''same title''))
        (search_filter None (books (run init [Create ''Same Title'' ''Author A'',
           Create ''Other'' ''Author C'', Create ''same title'' ''Author B''])))"
proof -
  let ?s = "run init [Create ''Same Title'' ''Author A'', Create ''Other'' ''Author C'',
                      Create ''same title'' ''Author B'']"
  have v: "''title'' \<in> valid_fields" by (simp add: valid_fields_def)
  have r: "list_books ?s None (Some ''title'') False
     = Inr [\<lparr>book_id = ''1'', title = ''Same Title'', author = ''Author A''\<rparr>,
            \<lparr>book_id = ''3'', title = ''same title'', author = ''Author B''\<rparr>,
            \<lparr>book_id = ''2'', title = ''Other'', author = ''Author C''\<rparr>]"
    by code_simp
  from list_books_sort_stable [OF v, of "[]" None False ?s] r
  show ?thesis by blast
qed

text \<open>
  Claim C6. The refactored \<open>list_books\<close>, which hands the sort to \<^verbatim>\<open>_sort_books\<close>, returns
  what the inline version returns, for every service, search, sort field and direction: the
  same list, or the same error raised under the same condition.
\<close>

theorem list_books_refactored_eq:
  "list_books_refactored s q sort_by ascending = list_books s q sort_by ascending"
  by (simp add: list_books_refactored_def list_books_def sort_books_def Let_def
      split: option.splits)

theorem list_books_refactored_eq_witness:
  "list_books_refactored (run init [Create ''Animal Farm'' ''George Orwell'',
       Create ''1984'' ''George Orwell'']) (Some ''orwell'') (Some ''invalid_field'') True
     = Inl (invalid_sort_field ''invalid_field'')
   \<and> list_books_refactored (run init [Create ''Animal Farm'' ''George Orwell'',
       Create ''1984'' ''George Orwell'']) (Some ''orwell'') (Some ''title'') True
     = Inr [\<lparr>book_id = ''2'', title = ''1984'', author = ''George Orwell''\<rparr>,
            \<lparr>book_id = ''1'', title = ''Animal Farm'', author = ''George Orwell''\<rparr>]"
proof -
  let ?s = "run init [Create ''Animal Farm'' ''George Orwell'', Create ''1984'' ''George Orwell'']"
  have a: "list_books ?s (Some ''orwell'') (Some ''invalid_field'') True
     = Inl (invalid_sort_field ''invalid_field'')" by code_simp
  have b: "list_books ?s (Some ''orwell'') (Some ''title'') True
     = Inr [\<lparr>book_id = ''2'', title = ''1984'', author = ''George Orwell''\<rparr>,
            \<lparr>book_id = ''1'', title = ''Animal Farm'', author = ''George Orwell''\<rparr>]"
    by code_simp
  show ?thesis
    using list_books_refactored_eq [of ?s "Some ''orwell''" "Some ''invalid_field''" True]
      list_books_refactored_eq [of ?s "Some ''orwell''" "Some ''title''" True] a b
    by (simp only: simp_thms)
qed

end
